theory Spec2Isabelle
  imports Main "HOL-Library.Word" "HOL-Library.Sublist"
begin

unbundle bit_operations_syntax

section \<open>Bytes and strings\<close>

text \<open>
  A Go string is a sequence of bytes and \<open>len\<close> counts bytes; \<^typ>\<open>string\<close> is a list of
  8-bit characters, so \<^const>\<open>length\<close> is Go's \<open>len\<close>. The conversion \<open>[]byte(v)\<close> reads
  every character as its byte.
\<close>

type_synonym byte = "8 word"
type_synonym uint32 = "32 word"
type_synonym uint64 = "64 word"

definition bytes_of_string :: "string \<Rightarrow> byte list" where
  "bytes_of_string v = map of_char v"

section \<open>crypto/md5\<close>

text \<open>
  The digest of the standard library, after RFC 1321: the message is padded with the
  byte 0x80, zero bytes up to 56 modulo 64 and the bit length as a little-endian 64-bit
  integer; every 64-byte block is read as sixteen little-endian 32-bit words and run
  through 64 steps; the four state words are written out little-endian.
\<close>

definition md5_K :: "uint32 list" where
  "md5_K =
    [0xd76aa478, 0xe8c7b756, 0x242070db, 0xc1bdceee, 0xf57c0faf, 0x4787c62a, 0xa8304613, 0xfd469501,
     0x698098d8, 0x8b44f7af, 0xffff5bb1, 0x895cd7be, 0x6b901122, 0xfd987193, 0xa679438e, 0x49b40821,
     0xf61e2562, 0xc040b340, 0x265e5a51, 0xe9b6c7aa, 0xd62f105d, 0x02441453, 0xd8a1e681, 0xe7d3fbc8,
     0x21e1cde6, 0xc33707d6, 0xf4d50d87, 0x455a14ed, 0xa9e3e905, 0xfcefa3f8, 0x676f02d9, 0x8d2a4c8a,
     0xfffa3942, 0x8771f681, 0x6d9d6122, 0xfde5380c, 0xa4beea44, 0x4bdecfa9, 0xf6bb4b60, 0xbebfbc70,
     0x289b7ec6, 0xeaa127fa, 0xd4ef3085, 0x04881d05, 0xd9d4d039, 0xe6db99e5, 0x1fa27cf8, 0xc4ac5665,
     0xf4292244, 0x432aff97, 0xab9423a7, 0xfc93a039, 0x655b59c3, 0x8f0ccc92, 0xffeff47d, 0x85845dd1,
     0x6fa87e4f, 0xfe2ce6e0, 0xa3014314, 0x4e0811a1, 0xf7537e82, 0xbd3af235, 0x2ad7d2bb, 0xeb86d391]"

definition md5_shift :: "nat list" where
  "md5_shift =
    [7, 12, 17, 22, 7, 12, 17, 22, 7, 12, 17, 22, 7, 12, 17, 22,
     5, 9, 14, 20, 5, 9, 14, 20, 5, 9, 14, 20, 5, 9, 14, 20,
     4, 11, 16, 23, 4, 11, 16, 23, 4, 11, 16, 23, 4, 11, 16, 23,
     6, 10, 15, 21, 6, 10, 15, 21, 6, 10, 15, 21, 6, 10, 15, 21]"

definition RotateLeft32 :: "uint32 \<Rightarrow> nat \<Rightarrow> uint32" where
  "RotateLeft32 x k = push_bit (k mod 32) x OR drop_bit (32 - k mod 32) x"

type_synonym md5_state = "uint32 \<times> uint32 \<times> uint32 \<times> uint32"

definition md5_init :: md5_state where
  "md5_init = (0x67452301, 0xefcdab89, 0x98badcfe, 0x10325476)"

fun md5_step :: "uint32 list \<Rightarrow> md5_state \<Rightarrow> nat \<Rightarrow> md5_state" where
  "md5_step x (a, b, c, d) i =
    (let f = (if i < 16 then ((c XOR d) AND b) XOR d
              else if i < 32 then ((b XOR c) AND d) XOR c
              else if i < 48 then b XOR c XOR d
              else c XOR (b OR NOT d));
         g = (if i < 16 then i
              else if i < 32 then (5 * i + 1) mod 16
              else if i < 48 then (3 * i + 5) mod 16
              else (7 * i) mod 16)
     in (d, b + RotateLeft32 (f + a + x ! g + md5_K ! i) (md5_shift ! i), b, c))"

definition md5_block :: "md5_state \<Rightarrow> uint32 list \<Rightarrow> md5_state" where
  "md5_block st x =
    (case (st, foldl (md5_step x) st [0..<64]) of
       ((a0, b0, c0, d0), (a, b, c, d)) \<Rightarrow> (a0 + a, b0 + b, c0 + c, d0 + d))"

definition le_uint32 :: "byte list \<Rightarrow> uint32" where
  "le_uint32 bs =
     ucast (bs ! 0) OR push_bit 8 (ucast (bs ! 1)) OR push_bit 16 (ucast (bs ! 2))
       OR push_bit 24 (ucast (bs ! 3))"

definition put_uint32 :: "uint32 \<Rightarrow> byte list" where
  "put_uint32 w = map (\<lambda>i. ucast (drop_bit (8 * i) w)) [0..<4]"

definition put_uint64 :: "uint64 \<Rightarrow> byte list" where
  "put_uint64 w = map (\<lambda>i. ucast (drop_bit (8 * i) w)) [0..<8]"

definition md5_pad :: "byte list \<Rightarrow> byte list" where
  "md5_pad bs =
     bs @ [0x80] @ replicate ((119 - length bs mod 64) mod 64) 0
        @ put_uint64 (of_nat (8 * length bs))"

definition md5_blocks :: "byte list \<Rightarrow> uint32 list list" where
  "md5_blocks bs =
     map (\<lambda>j. map (\<lambda>i. le_uint32 (take 4 (drop (64 * j + 4 * i) bs))) [0..<16])
       [0..<length bs div 64]"

definition md5_digest :: "byte list \<Rightarrow> byte list" where
  "md5_digest bs =
     (case foldl md5_block md5_init (md5_blocks (md5_pad bs)) of
        (a, b, c, d) \<Rightarrow> put_uint32 a @ put_uint32 b @ put_uint32 c @ put_uint32 d)"

text \<open>
  The ways a call can fail: the two errors of the package, \<open>ErrMaxSizeExceeded\<close> and
  \<open>ErrKeyNotFound\<close>; the error that \<open>Create\<close> builds with \<open>fmt.Errorf\<close> when writing to
  the hash fails; and the run-time panic of a slice expression whose bounds are out of
  range, which unwinds the call (the deferred \<open>Unlock\<close> runs) instead of returning.
\<close>

datatype error = ErrMaxSizeExceeded | ErrKeyNotFound | ErrWriteHash | PanicSliceBounds

text \<open>
  The \<open>hash.Hash\<close> value: \<open>md5.New()\<close> starts with nothing written, \<open>Write\<close> appends and
  never returns an error, \<open>Sum(nil)\<close> is the digest of what was written.
\<close>

type_synonym hasher = "byte list"

definition md5_New :: hasher where
  "md5_New = []"

definition hasher_Write :: "hasher \<Rightarrow> byte list \<Rightarrow> error + hasher" where
  "hasher_Write h p = Inr (h @ p)"

definition hasher_Sum :: "hasher \<Rightarrow> byte list" where
  "hasher_Sum h = md5_digest h"

section \<open>encoding/base64: RawURLEncoding\<close>

definition encodeURL :: string where
  "encodeURL = ''ABCDEFGHIJKLMNOPQRSTUVWXYZabcdefghijklmnopqrstuvwxyz0123456789-_''"

definition enc6 :: "uint32 \<Rightarrow> char" where
  "enc6 val = encodeURL ! unat (val AND 0x3F)"

fun EncodeToString :: "byte list \<Rightarrow> string" where
  "EncodeToString (b0 # b1 # b2 # src) =
    (let val = push_bit 16 (ucast b0) OR push_bit 8 (ucast b1) OR ucast b2
     in [enc6 (drop_bit 18 val), enc6 (drop_bit 12 val), enc6 (drop_bit 6 val), enc6 val]
          @ EncodeToString src)"
| "EncodeToString [b0, b1] =
    (let val = push_bit 16 (ucast b0) OR push_bit 8 (ucast b1)
     in [enc6 (drop_bit 18 val), enc6 (drop_bit 12 val), enc6 (drop_bit 6 val)])"
| "EncodeToString [b0] =
    (let val = push_bit 16 (ucast b0)
     in [enc6 (drop_bit 18 val), enc6 (drop_bit 12 val)])"
| "EncodeToString [] = []"

section \<open>The in-memory service\<close>

text \<open>
  The struct \<open>inMemService\<close>: the map from keys to values. Its mutex is taken on entry
  to the critical section of both methods and released on return; a call is modelled
  as one function from the service to the result and the service afterwards.
\<close>

record inMemService =
  m :: "string \<rightharpoonup> string"

definition maxLen :: nat where
  "maxLen = 2083"

definition minKeySize :: nat where
  "minKeySize = 6"

text \<open>
  The slice expression \<open>s[lo:hi]\<close> of a string: the run-time panics when the bounds are
  out of range.
\<close>

definition slice :: "string \<Rightarrow> nat \<Rightarrow> nat \<Rightarrow> error + string" where
  "slice xs lo hi =
     (if lo \<le> hi \<and> hi \<le> length xs then Inr (take (hi - lo) (drop lo xs))
      else Inl PanicSliceBounds)"

text \<open>
  The \<open>for\<close> loop of \<open>Create\<close>, from the values of \<open>size\<close> (here \<open>ksize\<close>) and
  \<open>offset\<close> at the head of an iteration. Both stay far below the range of \<open>int\<close>, so
  they are natural numbers. An iteration first grows the window if it does not fit,
  then takes the candidate key, and returns unless the key is taken by another value.
\<close>

function probe ::
  "inMemService \<Rightarrow> string \<Rightarrow> string \<Rightarrow> nat \<Rightarrow> nat \<Rightarrow> (error + string) \<times> inMemService" where
  "probe s v vHash ksize offset =
     (let ksize' = (if offset + ksize > length vHash then ksize + 1 else ksize);
          offset' = (if offset + ksize > length vHash then 0 else offset)
      in case slice vHash offset' (offset' + ksize') of
           Inl e \<Rightarrow> (Inl e, s)
         | Inr k \<Rightarrow>
             (case m s k of
                Some oldv \<Rightarrow>
                  if oldv = v then (Inr k, s)
                  else probe s v vHash ksize' (offset' + 1)
              | None \<Rightarrow> (Inr k, s\<lparr>m := (m s)(k \<mapsto> v)\<rparr>)))"
  by pat_completeness auto
termination
  by (relation "measures [\<lambda>(s, v, vHash, ksize, offset). length vHash + 1 - ksize,
                          \<lambda>(s, v, vHash, ksize, offset). length vHash + 1 - offset]")
     (auto simp: slice_def split: if_splits)

declare probe.simps [simp del]

definition Create :: "inMemService \<Rightarrow> string \<Rightarrow> (error + string) \<times> inMemService" where
  "Create s v =
     (if length v > maxLen then (Inl ErrMaxSizeExceeded, s)
      else case hasher_Write md5_New (bytes_of_string v) of
             Inl err \<Rightarrow> (Inl ErrWriteHash, s)
           | Inr hasher \<Rightarrow>
               (let vHash = EncodeToString (hasher_Sum hasher)
                in probe s v vHash minKeySize 0))"

definition Lookup :: "inMemService \<Rightarrow> string \<Rightarrow> (error + string) \<times> inMemService" where
  "Lookup s k =
     (if length k > maxLen then (Inl ErrMaxSizeExceeded, s)
      else case m s k of
             None \<Rightarrow> (Inl ErrKeyNotFound, s)
           | Some v \<Rightarrow> (Inr v, s))"

text \<open>
  \<open>NewInMemService\<close> starts from the empty map. The logging and instrumenting
  middlewares it wraps around the service pass the arguments and the results through
  unchanged and never touch the map.
\<close>

definition NewInMemService :: inMemService where
  "NewInMemService = \<lparr>m = Map.empty\<rparr>"

section \<open>Digest windows, runs and sequences of calls\<close>

text \<open>The value of \<open>vHash\<close> in \<open>Create\<close>: the digest of the value, in base 64.\<close>

definition digest :: "string \<Rightarrow> string" where
  "digest v = EncodeToString (md5_digest (bytes_of_string v))"

text \<open>
  The candidate key \<open>vHash[offset : offset+size]\<close> when it is in range, and the values
  of \<open>size\<close> and \<open>offset\<close> after the \<open>if\<close> that opens an iteration.
\<close>

definition window :: "string \<Rightarrow> nat \<Rightarrow> nat \<Rightarrow> string" where
  "window D off sz = take sz (drop off D)"

definition next_size :: "string \<Rightarrow> nat \<Rightarrow> nat \<Rightarrow> nat" where
  "next_size D sz off = (if off + sz > length D then sz + 1 else sz)"

definition next_offset :: "string \<Rightarrow> nat \<Rightarrow> nat \<Rightarrow> nat" where
  "next_offset D sz off = (if off + sz > length D then 0 else off)"

text \<open>
  The same loop as a relation between the state at the head of an iteration and the
  outcome, with the list of candidate keys computed on the way: a derivation is one
  finite execution.
\<close>

inductive probe_run ::
  "inMemService \<Rightarrow> string \<Rightarrow> string \<Rightarrow> nat \<Rightarrow> nat \<Rightarrow>
     string list \<Rightarrow> error + string \<Rightarrow> inMemService \<Rightarrow> bool" where
  out_of_range:
    "slice vHash (next_offset vHash ksize offset)
       (next_offset vHash ksize offset + next_size vHash ksize offset) = Inl e \<Longrightarrow>
     probe_run s v vHash ksize offset [] (Inl e) s"
| same_value:
    "slice vHash (next_offset vHash ksize offset)
       (next_offset vHash ksize offset + next_size vHash ksize offset) = Inr k \<Longrightarrow>
     m s k = Some v \<Longrightarrow>
     probe_run s v vHash ksize offset [k] (Inr k) s"
| move_window:
    "slice vHash (next_offset vHash ksize offset)
       (next_offset vHash ksize offset + next_size vHash ksize offset) = Inr k \<Longrightarrow>
     m s k = Some oldv \<Longrightarrow> oldv \<noteq> v \<Longrightarrow>
     probe_run s v vHash (next_size vHash ksize offset) (next_offset vHash ksize offset + 1)
       ks r s' \<Longrightarrow>
     probe_run s v vHash ksize offset (k # ks) r s'"
| found_slot:
    "slice vHash (next_offset vHash ksize offset)
       (next_offset vHash ksize offset + next_size vHash ksize offset) = Inr k \<Longrightarrow>
     m s k = None \<Longrightarrow>
     probe_run s v vHash ksize offset [k] (Inr k) (s\<lparr>m := (m s)(k \<mapsto> v)\<rparr>)"

inductive Create_run ::
  "inMemService \<Rightarrow> string \<Rightarrow> string list \<Rightarrow> error + string \<Rightarrow> inMemService \<Rightarrow> bool" where
  too_long:
    "length v > maxLen \<Longrightarrow> Create_run s v [] (Inl ErrMaxSizeExceeded) s"
| write_failed:
    "\<not> length v > maxLen \<Longrightarrow> hasher_Write md5_New (bytes_of_string v) = Inl err \<Longrightarrow>
     Create_run s v [] (Inl ErrWriteHash) s"
| probed:
    "\<not> length v > maxLen \<Longrightarrow> hasher_Write md5_New (bytes_of_string v) = Inr hasher \<Longrightarrow>
     probe_run s v (EncodeToString (hasher_Sum hasher)) minKeySize 0 ks r s' \<Longrightarrow>
     Create_run s v ks r s'"

text \<open>The number of windows of \<open>n\<close> sizes: \<open>n + (n - 1) + ... + 1\<close>.\<close>

fun windows_left :: "nat \<Rightarrow> nat" where
  "windows_left 0 = 0"
| "windows_left (Suc n) = windows_left n + Suc n"

text \<open>
  The windows still to try from the head of an iteration: those of the size in force
  from the offset in force on, and all those of the larger sizes.
\<close>

definition probes_left :: "string \<Rightarrow> nat \<Rightarrow> nat \<Rightarrow> nat" where
  "probes_left D sz off =
     (if next_offset D sz off + next_size D sz off \<le> length D
      then windows_left (length D + 1 - next_size D sz off) - next_offset D sz off
      else 0)"

text \<open>Every candidate key of a digest: its windows of \<open>minKeySize\<close> characters and more.\<close>

definition windows_of :: "string \<Rightarrow> string list" where
  "windows_of D =
     concat (map (\<lambda>z. map (\<lambda>p. window D p z) [0..<length D + 1 - z])
                 [minKeySize..<length D + 1])"

text \<open>A key that the map holds for another value than \<open>v\<close>: a collision.\<close>

definition taken_by_other :: "inMemService \<Rightarrow> string \<Rightarrow> string \<Rightarrow> bool" where
  "taken_by_other s v k = (case m s k of None \<Rightarrow> False | Some oldv \<Rightarrow> oldv \<noteq> v)"

text \<open>Calls of the two methods of the interface \<open>Service\<close>, one after the other.\<close>

datatype call = CreateCall string | LookupCall string

fun serve :: "inMemService \<Rightarrow> call \<Rightarrow> (error + string) \<times> inMemService" where
  "serve s (CreateCall v) = Create s v"
| "serve s (LookupCall k) = Lookup s k"

fun run_calls :: "inMemService \<Rightarrow> call list \<Rightarrow> inMemService" where
  "run_calls s [] = s"
| "run_calls s (c # cs) = run_calls (snd (serve s c)) cs"

text \<open>The keys that the calls of \<open>Create\<close> in a sequence of calls return.\<close>

fun created_keys :: "inMemService \<Rightarrow> call list \<Rightarrow> string set" where
  "created_keys s [] = {}"
| "created_keys s (CreateCall v # cs) =
     (case fst (Create s v) of Inr k \<Rightarrow> {k} | Inl e \<Rightarrow> {}) \<union> created_keys (snd (Create s v)) cs"
| "created_keys s (LookupCall k # cs) = created_keys (snd (Lookup s k)) cs"

text \<open>
  Every key of the map is a contiguous part of the digest of its value, of at least
  \<open>minKeySize\<close> characters.
\<close>

definition keys_from_digests :: "inMemService \<Rightarrow> bool" where
  "keys_from_digests s =
     (\<forall>k v. m s k = Some v \<longrightarrow>
        sublist k (digest v) \<and> minKeySize \<le> length k \<and> length k \<le> length (digest v))"

section \<open>The digest\<close>

lemma length_put_uint32: "length (put_uint32 w) = 4"
  by (simp add: put_uint32_def)

lemma length_md5_digest: "length (md5_digest bs) = 16"
  by (simp add: md5_digest_def length_put_uint32 split: prod.splits)

lemma length_EncodeToString: "length (EncodeToString bs) = (4 * length bs + 2) div 3"
  by (induction bs rule: EncodeToString.induct) (simp_all add: Let_def)

lemma length_digest: "length (digest v) = 22"
  by (simp add: digest_def length_EncodeToString length_md5_digest)

lemma enc6_in_alphabet: "enc6 val \<in> set encodeURL"
proof -
  have "unat (val AND 0x3F) \<le> unat (0x3F :: uint32)"
    by (rule word_and_le1 [THEN word_le_nat_alt [THEN iffD1]])
  then have "unat (val AND 0x3F) < length encodeURL"
    by (simp add: encodeURL_def)
  then show ?thesis unfolding enc6_def by (rule nth_mem)
qed

lemma EncodeToString_alphabet: "set (EncodeToString bs) \<subseteq> set encodeURL"
  by (induction bs rule: EncodeToString.induct) (simp_all add: Let_def enc6_in_alphabet)

lemma sublist_window: "sublist (window D p z) D"
proof -
  have "D = take p D @ window D p z @ drop z (drop p D)"
    unfolding window_def by (simp only: append_take_drop_id)
  then show ?thesis unfolding sublist_def by blast
qed

lemma Create_digest:
  "Create s v =
     (if length v > maxLen then (Inl ErrMaxSizeExceeded, s)
      else probe s v (digest v) minKeySize 0)"
  by (simp add: Create_def hasher_Write_def md5_New_def hasher_Sum_def digest_def)

section \<open>One iteration of the loop\<close>

lemma probe_panic:
  "length D < next_offset D sz off + next_size D sz off \<Longrightarrow>
   probe s v D sz off = (Inl PanicSliceBounds, s)"
  by (subst probe.simps) (simp add: Let_def slice_def next_size_def next_offset_def)

lemma probe_hit:
  "next_offset D sz off + next_size D sz off \<le> length D \<Longrightarrow>
   m s (window D (next_offset D sz off) (next_size D sz off)) = Some v \<Longrightarrow>
   probe s v D sz off = (Inr (window D (next_offset D sz off) (next_size D sz off)), s)"
  by (subst probe.simps) (simp add: Let_def slice_def next_size_def next_offset_def window_def)

lemma probe_collide:
  "next_offset D sz off + next_size D sz off \<le> length D \<Longrightarrow>
   m s (window D (next_offset D sz off) (next_size D sz off)) = Some w \<Longrightarrow> w \<noteq> v \<Longrightarrow>
   probe s v D sz off = probe s v D (next_size D sz off) (next_offset D sz off + 1)"
  by (subst probe.simps) (simp add: Let_def slice_def next_size_def next_offset_def window_def)

lemma probe_claim:
  "next_offset D sz off + next_size D sz off \<le> length D \<Longrightarrow>
   m s (window D (next_offset D sz off) (next_size D sz off)) = None \<Longrightarrow>
   probe s v D sz off =
     (Inr (window D (next_offset D sz off) (next_size D sz off)),
      s\<lparr>m := (m s)(window D (next_offset D sz off) (next_size D sz off) \<mapsto> v)\<rparr>)"
  by (subst probe.simps) (simp add: Let_def slice_def next_size_def next_offset_def window_def)

lemma next_size_ge: "sz \<le> next_size D sz off"
  by (simp add: next_size_def)

text \<open>Induction along the iterations: the only way round the loop is a collision.\<close>

lemma probe_induct [case_names step]:
  assumes "\<And>s v D sz off.
     (\<And>w. next_offset D sz off + next_size D sz off \<le> length D \<Longrightarrow>
          m s (window D (next_offset D sz off) (next_size D sz off)) = Some w \<Longrightarrow> w \<noteq> v \<Longrightarrow>
          P s v D (next_size D sz off) (next_offset D sz off + 1)) \<Longrightarrow>
     P s v D sz off"
  shows "P (s::inMemService) v D sz off"
proof (induction s v D sz off rule: probe.induct)
  case (1 s v vHash ksize offset)
  show ?case
  proof (rule assms)
    fix w
    assume "next_offset vHash ksize offset + next_size vHash ksize offset \<le> length vHash"
      and "m s (window vHash (next_offset vHash ksize offset) (next_size vHash ksize offset)) = Some w"
      and "w \<noteq> v"
    then show "P s v vHash (next_size vHash ksize offset) (next_offset vHash ksize offset + 1)"
      using "1.IH" [OF refl refl, of "window vHash (next_offset vHash ksize offset) (next_size vHash ksize offset)" w]
      by (simp add: slice_def next_size_def next_offset_def window_def split: if_splits)
  qed
qed

lemma probe_cases [consumes 1, case_names panic claim hit collide]:
  assumes "probe s v D sz off = (r, s')"
  obtains
    "length D < next_offset D sz off + next_size D sz off"
      and "r = Inl PanicSliceBounds" and "s' = s"
  | "next_offset D sz off + next_size D sz off \<le> length D"
      and "m s (window D (next_offset D sz off) (next_size D sz off)) = None"
      and "r = Inr (window D (next_offset D sz off) (next_size D sz off))"
      and "m s' = (m s)(window D (next_offset D sz off) (next_size D sz off) \<mapsto> v)"
  | "next_offset D sz off + next_size D sz off \<le> length D"
      and "m s (window D (next_offset D sz off) (next_size D sz off)) = Some v"
      and "r = Inr (window D (next_offset D sz off) (next_size D sz off))" and "s' = s"
  | w where "next_offset D sz off + next_size D sz off \<le> length D"
      and "m s (window D (next_offset D sz off) (next_size D sz off)) = Some w" and "w \<noteq> v"
      and "probe s v D (next_size D sz off) (next_offset D sz off + 1) = (r, s')"
proof (cases "next_offset D sz off + next_size D sz off \<le> length D")
  case False
  with assms that(1) show ?thesis by (simp add: probe_panic)
next
  case fits: True
  show ?thesis
  proof (cases "m s (window D (next_offset D sz off) (next_size D sz off))")
    case None
    with fits assms have "r = Inr (window D (next_offset D sz off) (next_size D sz off))"
      and "m s' = (m s)(window D (next_offset D sz off) (next_size D sz off) \<mapsto> v)"
      by (auto simp: probe_claim)
    with fits None show ?thesis by (rule that(2))
  next
    case (Some w)
    show ?thesis
    proof (cases "w = v")
      case True
      with Some fits assms
      have "r = Inr (window D (next_offset D sz off) (next_size D sz off))" and "s' = s"
        by (simp_all add: probe_hit)
      with fits Some [unfolded True] show ?thesis by (rule that(3))
    next
      case False
      with Some fits assms
      have "probe s v D (next_size D sz off) (next_offset D sz off + 1) = (r, s')"
        by (simp add: probe_collide)
      with fits Some False show ?thesis by (rule that(4))
    qed
  qed
qed

section \<open>What the loop returns and what it stores\<close>

lemma probe_fail:
  "probe s v D sz off = (Inl e, s') \<Longrightarrow> e = PanicSliceBounds \<and> s' = s"
proof (induction s v D sz off rule: probe_induct)
  case (step s v D sz off)
  from step.prems show ?case
    by (cases rule: probe_cases) (auto dest: step.IH)
qed

lemma probe_key_window:
  "probe s v D sz off = (Inr k, s') \<Longrightarrow>
     \<exists>z p. sz \<le> z \<and> p + z \<le> length D \<and> k = window D p z"
proof (induction s v D sz off rule: probe_induct)
  case (step s v D sz off)
  from step.prems show ?case
  proof (cases rule: probe_cases)
    case (collide w)
    from step.IH [OF collide] obtain z p
      where "next_size D sz off \<le> z" and "p + z \<le> length D" and "k = window D p z"
      by blast
    moreover from this next_size_ge [of sz D off] have "sz \<le> z" by simp
    ultimately show ?thesis by blast
  qed (use next_size_ge [of sz D off] in blast)+
qed

lemma probe_stored:
  "probe s v D sz off = (Inr k, s') \<Longrightarrow> m s' k = Some v"
proof (induction s v D sz off rule: probe_induct)
  case (step s v D sz off)
  from step.prems show ?case
    by (cases rule: probe_cases) (auto dest: step.IH)
qed

lemma probe_frame:
  "probe s v D sz off = (r, s') \<Longrightarrow>
     s' = s \<or> (\<exists>k. r = Inr k \<and> m s k = None \<and> m s' = (m s)(k \<mapsto> v))"
proof (induction s v D sz off rule: probe_induct)
  case (step s v D sz off)
  from step.prems show ?case
    by (cases rule: probe_cases) (auto dest: step.IH)
qed

lemma Create_probe:
  "Create s v = (Inr k, s') \<Longrightarrow> probe s v (digest v) minKeySize 0 = (Inr k, s')"
  by (simp add: Create_digest split: if_splits)

lemma Create_key_length:
  assumes "Create s v = (Inr k, s')"
  shows "minKeySize \<le> length k \<and> length k \<le> 22"
proof -
  from probe_key_window [OF Create_probe [OF assms]] obtain z p
    where "minKeySize \<le> z" and "p + z \<le> length (digest v)" and "k = window (digest v) p z"
    by blast
  then show ?thesis by (simp add: window_def length_digest)
qed

section \<open>The test case of the repository\<close>

lemma digest_12345: "digest ''12345'' = ''gnzLDuqKcGxMNKFokfhOew''"
  by code_simp

lemma Create_12345:
  "Create NewInMemService ''12345'' = (Inr ''gnzLDu'', \<lparr>m = [''gnzLDu'' \<mapsto> ''12345'']\<rparr>)"
  by (simp add: Create_digest digest_12345 NewInMemService_def maxLen_def minKeySize_def
        probe.simps slice_def)

text \<open>
  Two values whose digests begin with the same six characters: the second one created
  finds the first window taken and moves on by one character.
\<close>

lemma digest_40236: "digest ''40236'' = ''9GZX1nPZXM-NErEHWrfGUw''"
  by code_simp

lemma digest_400704: "digest ''400704'' = ''9GZX1n56PeAvZAE7_L2TLA''"
  by code_simp

lemma Create_40236:
  "Create NewInMemService ''40236'' = (Inr ''9GZX1n'', \<lparr>m = [''9GZX1n'' \<mapsto> ''40236'']\<rparr>)"
  by (simp add: Create_digest digest_40236 NewInMemService_def maxLen_def minKeySize_def
        probe.simps slice_def)

lemma Create_400704:
  "Create \<lparr>m = [''9GZX1n'' \<mapsto> ''40236'']\<rparr> ''400704'' =
     (Inr ''GZX1n5'', \<lparr>m = [''9GZX1n'' \<mapsto> ''40236'', ''GZX1n5'' \<mapsto> ''400704'']\<rparr>)"
  by (simp add: Create_digest digest_400704 maxLen_def minKeySize_def probe.simps slice_def)

section \<open>Entries are never changed or removed\<close>

lemma probe_mono: "probe s v D sz off = (r, s') \<Longrightarrow> m s \<subseteq>\<^sub>m m s'"
  by (drule probe_frame) (auto simp: map_le_def)

lemma Create_mono: "Create s v = (r, s') \<Longrightarrow> m s \<subseteq>\<^sub>m m s'"
  by (auto simp: Create_digest split: if_splits dest: probe_mono)

lemma Lookup_unchanged: "snd (Lookup s k) = s"
  by (simp add: Lookup_def split: option.splits)

lemma serve_mono: "m s \<subseteq>\<^sub>m m (snd (serve s c))"
proof (cases c)
  case (CreateCall v)
  then show ?thesis using Create_mono [of s v "fst (Create s v)" "snd (Create s v)"] by simp
next
  case (LookupCall k)
  then show ?thesis by (simp add: Lookup_unchanged)
qed

lemma run_calls_mono: "m s \<subseteq>\<^sub>m m (run_calls s cs)"
proof (induction cs arbitrary: s)
  case Nil
  show ?case by simp
next
  case (Cons c cs)
  from serve_mono [of s c] Cons.IH [of "snd (serve s c)"] show ?case
    by (auto intro: map_le_trans)
qed

lemma probe_stable:
  "probe s v D sz off = (r, s1) \<Longrightarrow> m s1 \<subseteq>\<^sub>m m s2 \<Longrightarrow> probe s2 v D sz off = (r, s2)"
proof (induction s v D sz off rule: probe_induct)
  case (step s v D sz off)
  let ?k = "window D (next_offset D sz off) (next_size D sz off)"
  from step.prems(1) show ?case
  proof (cases rule: probe_cases)
    case panic
    then show ?thesis by (simp add: probe_panic)
  next
    case claim
    with step.prems(2) have "m s2 ?k = Some v"
      by (auto simp: map_le_def dom_def)
    with claim show ?thesis by (simp add: probe_hit)
  next
    case hit
    with step.prems(2) have "m s2 ?k = Some v"
      by (auto simp: map_le_def dom_def)
    with hit show ?thesis by (simp add: probe_hit)
  next
    case (collide w)
    from collide(4) have "m s \<subseteq>\<^sub>m m s1" by (rule probe_mono)
    from this step.prems(2) have "m s \<subseteq>\<^sub>m m s2" by (rule map_le_trans)
    with collide(2) have "m s2 ?k = Some w"
      by (auto simp: map_le_def dom_def)
    with collide(1,3) have "probe s2 v D sz off = probe s2 v D (next_size D sz off) (next_offset D sz off + 1)"
      by (simp add: probe_collide)
    with step.IH [OF collide step.prems(2)] show ?thesis by simp
  qed
qed

text \<open>The keys of the map are those it had and those that \<open>Create\<close> returned.\<close>

lemma Create_dom:
  "dom (m (snd (Create s v))) =
     dom (m s) \<union> (case fst (Create s v) of Inr k \<Rightarrow> {k} | Inl e \<Rightarrow> {})"
proof (cases "Create s v")
  case (Pair r s')
  show ?thesis
  proof (cases r)
    case (Inl e)
    with Pair have "s' = s"
      by (auto simp: Create_digest split: if_splits dest: probe_fail)
    with Pair Inl show ?thesis by simp
  next
    case (Inr k)
    with Pair have run: "probe s v (digest v) minKeySize 0 = (Inr k, s')"
      by (simp add: Create_probe)
    from probe_stored [OF run] have "m s' k = Some v" .
    with probe_frame [OF run] have "dom (m s') = insert k (dom (m s))"
      by auto
    with Pair Inr show ?thesis by simp
  qed
qed

lemma run_calls_dom: "dom (m (run_calls s cs)) = dom (m s) \<union> created_keys s cs"
proof (induction cs arbitrary: s)
  case Nil
  show ?case by simp
next
  case (Cons c cs)
  show ?case
  proof (cases c)
    case (CreateCall v)
    with Cons.IH [of "snd (Create s v)"] Create_dom [of s v] show ?thesis
      by (simp add: Un_assoc)
  next
    case (LookupCall k)
    with Cons.IH [of s] show ?thesis by (simp add: Lookup_unchanged)
  qed
qed

text \<open>Every call keeps the keys contiguous parts of the digests of their values.\<close>

lemma Create_keeps_keys_from_digests:
  assumes "keys_from_digests s"
  shows "keys_from_digests (snd (Create s v))"
proof (cases "Create s v")
  case (Pair r s')
  show ?thesis
  proof (cases r)
    case (Inl e)
    with Pair have "s' = s"
      by (auto simp: Create_digest split: if_splits dest: probe_fail)
    with Pair assms show ?thesis by simp
  next
    case (Inr k)
    with Pair have run: "probe s v (digest v) minKeySize 0 = (Inr k, s')"
      by (simp add: Create_probe)
    from probe_key_window [OF run] obtain z p
      where "minKeySize \<le> z" and "p + z \<le> length (digest v)" and k: "k = window (digest v) p z"
      by blast
    then have "minKeySize \<le> length k" and "length k \<le> length (digest v)"
      by (simp_all add: window_def)
    moreover have "sublist k (digest v)" unfolding k by (rule sublist_window)
    moreover from probe_frame [OF run] have "s' = s \<or> m s' = (m s)(k \<mapsto> v)" by auto
    ultimately have "keys_from_digests s'"
      using assms by (auto simp: keys_from_digests_def split: if_splits)
    with Pair show ?thesis by simp
  qed
qed

lemma serve_keeps_keys_from_digests:
  "keys_from_digests s \<Longrightarrow> keys_from_digests (snd (serve s c))"
  by (cases c) (simp_all add: Create_keeps_keys_from_digests Lookup_unchanged)

lemma run_calls_keeps_keys_from_digests:
  "keys_from_digests s \<Longrightarrow> keys_from_digests (run_calls s cs)"
  by (induction cs arbitrary: s) (simp_all add: serve_keeps_keys_from_digests)

section \<open>Runs of the loop\<close>

text \<open>
  The relation and the function describe the same loop: every run ends as the function
  says, there is a run from every state, and it is the only one.
\<close>

lemma slice_Inr: "slice D p (p + z) = Inr k \<longleftrightarrow> p + z \<le> length D \<and> k = window D p z"
  by (auto simp: slice_def window_def)

lemma slice_Inl: "slice D p (p + z) = Inl e \<longleftrightarrow> length D < p + z \<and> e = PanicSliceBounds"
  by (auto simp: slice_def)

lemma probe_run_sound:
  "probe_run s v D sz off ks r s' \<Longrightarrow> probe s v D sz off = (r, s')"
proof (induction rule: probe_run.induct)
  case (out_of_range vHash ksize offset e s v)
  then show ?case by (simp add: slice_Inl probe_panic)
next
  case (same_value vHash ksize offset k s v)
  then show ?case by (simp add: slice_Inr probe_hit)
next
  case (move_window vHash ksize offset k s oldv v ks r s')
  then show ?case by (simp add: slice_Inr probe_collide)
next
  case (found_slot vHash ksize offset k s v)
  then show ?case by (simp add: slice_Inr probe_claim)
qed

lemma probe_run_total:
  "\<exists>ks. probe_run s v D sz off ks (fst (probe s v D sz off)) (snd (probe s v D sz off))"
proof (induction s v D sz off rule: probe_induct)
  case (step s v D sz off)
  let ?p = "next_offset D sz off" and ?z = "next_size D sz off"
  obtain r s' where run: "probe s v D sz off = (r, s')" by (cases "probe s v D sz off")
  from run show ?case
  proof (cases rule: probe_cases)
    case panic
    then have "slice D ?p (?p + ?z) = Inl PanicSliceBounds" by (simp add: slice_Inl)
    then have "probe_run s v D sz off [] (Inl PanicSliceBounds) s"
      by (rule probe_run.out_of_range)
    with panic run show ?thesis by auto
  next
    case claim
    then have "slice D ?p (?p + ?z) = Inr (window D ?p ?z)" by (simp add: slice_Inr)
    from probe_run.found_slot [OF this claim(2), of v] claim(1,2) show ?thesis
      by (auto simp: probe_claim)
  next
    case hit
    then have "slice D ?p (?p + ?z) = Inr (window D ?p ?z)" by (simp add: slice_Inr)
    from probe_run.same_value [OF this hit(2)] hit run show ?thesis by auto
  next
    case (collide w)
    then have sl: "slice D ?p (?p + ?z) = Inr (window D ?p ?z)" by (simp add: slice_Inr)
    from step.IH [OF collide(1,2,3)] collide(4) obtain ks
      where "probe_run s v D ?z (?p + 1) ks r s'" by auto
    from probe_run.move_window [OF sl collide(2,3) this] run show ?thesis by auto
  qed
qed

lemma probe_run_deterministic:
  "probe_run s v D sz off ks r s' \<Longrightarrow> probe_run s v D sz off ks' r' s'' \<Longrightarrow>
     ks = ks' \<and> r = r' \<and> s' = s''"
proof (induction arbitrary: ks' r' s'' rule: probe_run.induct)
  case (out_of_range vHash ksize offset e s v)
  from out_of_range.prems show ?case
    by (cases rule: probe_run.cases) (use out_of_range.hyps in simp_all)
next
  case (same_value vHash ksize offset k s v)
  from same_value.prems show ?case
    by (cases rule: probe_run.cases) (use same_value.hyps in simp_all)
next
  case (move_window vHash ksize offset k s oldv v ks r s')
  from move_window.prems show ?case
  proof (cases rule: probe_run.cases)
    case (move_window k2 oldv2 ks2)
    with move_window.hyps have "k2 = k" by simp
    with move_window.IH [of ks2 r' s''] move_window(5) move_window(1) show ?thesis by simp
  qed (use move_window.hyps in simp_all)
next
  case (found_slot vHash ksize offset k s v)
  from found_slot.prems show ?case
    by (cases rule: probe_run.cases) (use found_slot.hyps in simp_all)
qed

lemma Create_run_sound: "Create_run s v ks r s' \<Longrightarrow> Create s v = (r, s')"
proof (induction rule: Create_run.induct)
  case (too_long v s)
  then show ?case by (simp add: Create_def)
next
  case (write_failed v err s)
  then show ?case by (simp add: Create_def)
next
  case (probed v hasher s ks r s')
  from probed(3) have "probe s v (EncodeToString (hasher_Sum hasher)) minKeySize 0 = (r, s')"
    by (rule probe_run_sound)
  with probed(1,2) show ?case by (simp add: Create_def)
qed

lemma Create_run_total: "\<exists>ks. Create_run s v ks (fst (Create s v)) (snd (Create s v))"
proof (cases "length v > maxLen")
  case True
  from Create_run.too_long [OF True, of s] True show ?thesis
    by (auto simp: Create_def)
next
  case False
  have written: "hasher_Write md5_New (bytes_of_string v) = Inr (bytes_of_string v)"
    by (simp add: hasher_Write_def md5_New_def)
  have hash: "EncodeToString (hasher_Sum (bytes_of_string v)) = digest v"
    by (simp add: digest_def hasher_Sum_def)
  obtain ks where "probe_run s v (digest v) minKeySize 0 ks
      (fst (probe s v (digest v) minKeySize 0)) (snd (probe s v (digest v) minKeySize 0))"
    using probe_run_total by blast
  with False have "probe_run s v (EncodeToString (hasher_Sum (bytes_of_string v))) minKeySize 0 ks
      (fst (Create s v)) (snd (Create s v))"
    by (simp add: Create_digest hash)
  from Create_run.probed [OF False written this] show ?thesis ..
qed

lemma Create_run_deterministic:
  assumes "Create_run s v ks r s'" and "Create_run s v ks' r' s''"
  shows "ks = ks' \<and> r = r' \<and> s' = s''"
  using assms
proof (induction rule: Create_run.induct)
  case (too_long v s)
  from too_long.prems show ?case
    by (cases rule: Create_run.cases) (use too_long.hyps in simp_all)
next
  case (write_failed v err s)
  from write_failed.prems show ?case
    by (cases rule: Create_run.cases) (use write_failed.hyps in simp_all)
next
  case (probed v hasher s ks r s')
  from probed.prems show ?case
  proof (cases rule: Create_run.cases)
    case (probed hasher2)
    with probed.hyps(2) have "hasher2 = hasher" by simp
    with probed(3) probed.hyps(3) show ?thesis
      by (simp add: probe_run_deterministic)
  qed (use probed.hyps in simp_all)
qed

section \<open>How long the loop runs and when it panics\<close>

lemma windows_left_ge: "n \<le> windows_left n"
  by (induction n) simp_all

lemma probes_left_last:
  assumes "next_offset D sz off + next_size D sz off \<le> length D"
  shows "1 \<le> probes_left D sz off"
proof -
  let ?n = "length D + 1 - next_size D sz off"
  from assms have "next_offset D sz off + 1 \<le> ?n" by simp
  also have "?n \<le> windows_left ?n" by (rule windows_left_ge)
  finally show ?thesis using assms by (simp add: probes_left_def)
qed

lemma probes_left_step:
  assumes "next_offset D sz off + next_size D sz off \<le> length D"
  shows "Suc (probes_left D (next_size D sz off) (next_offset D sz off + 1)) \<le> probes_left D sz off"
proof -
  define z where "z = next_size D sz off"
  define p where "p = next_offset D sz off"
  define L where "L = length D"
  from assms have fits: "p + z \<le> L" by (simp add: z_def p_def L_def)
  have goal: "Suc (probes_left D z (p + 1)) \<le> windows_left (L + 1 - z) - p"
  proof (cases "p + 1 + z \<le> L")
    case True
    then have "p + 2 \<le> L + 1 - z" by simp
    also have "\<dots> \<le> windows_left (L + 1 - z)" by (rule windows_left_ge)
    finally have "p + 2 \<le> windows_left (L + 1 - z)" .
    with True show ?thesis
      by (simp add: probes_left_def next_size_def next_offset_def L_def)
  next
    case False
    with fits have eq: "L = p + z" by simp
    show ?thesis
    proof (cases "z + 1 \<le> L")
      case True
      with eq obtain q where q: "p = Suc q" by (cases p) simp_all
      with eq True show ?thesis
        by (simp add: probes_left_def next_size_def next_offset_def L_def [symmetric])
    next
      case False
      with eq have "p = 0" by simp
      with eq False show ?thesis
        by (simp add: probes_left_def next_size_def next_offset_def L_def [symmetric])
    qed
  qed
  with fits show ?thesis
    by (simp add: probes_left_def z_def p_def L_def)
qed

lemma probe_run_length:
  "probe_run s v D sz off ks r s' \<Longrightarrow> length ks \<le> probes_left D sz off"
proof (induction rule: probe_run.induct)
  case (out_of_range vHash ksize offset e s v)
  show ?case by simp
next
  case (same_value vHash ksize offset k s v)
  then show ?case using probes_left_last [of vHash ksize offset] by (simp add: slice_Inr)
next
  case (move_window vHash ksize offset k s oldv v ks r s')
  then show ?case using probes_left_step [of vHash ksize offset] by (simp add: slice_Inr)
next
  case (found_slot vHash ksize offset k s v)
  then show ?case using probes_left_last [of vHash ksize offset] by (simp add: slice_Inr)
qed

lemma probe_run_keys:
  "probe_run s v D sz off ks r s' \<Longrightarrow> k \<in> set ks \<Longrightarrow>
     \<exists>z p. sz \<le> z \<and> p + z \<le> length D \<and> k = window D p z"
proof (induction rule: probe_run.induct)
  case (out_of_range vHash ksize offset e s v)
  then show ?case by simp
next
  case (same_value vHash ksize offset k' s v)
  then have "next_offset vHash ksize offset + next_size vHash ksize offset \<le> length vHash"
    and "k = window vHash (next_offset vHash ksize offset) (next_size vHash ksize offset)"
    by (simp_all add: slice_Inr)
  with next_size_ge [of ksize vHash offset] show ?case by blast
next
  case (move_window vHash ksize offset k' s oldv v ks r s')
  show ?case
  proof (cases "k = k'")
    case True
    with move_window.hyps(1)
    have "next_offset vHash ksize offset + next_size vHash ksize offset \<le> length vHash"
      and "k = window vHash (next_offset vHash ksize offset) (next_size vHash ksize offset)"
      by (simp_all add: slice_Inr)
    with next_size_ge [of ksize vHash offset] show ?thesis by blast
  next
    case False
    with move_window.prems have "k \<in> set ks" by simp
    from move_window.IH [OF this] obtain z p
      where "next_size vHash ksize offset \<le> z" and "p + z \<le> length vHash"
        and "k = window vHash p z" by blast
    moreover from this next_size_ge [of ksize vHash offset] have "ksize \<le> z" by simp
    ultimately show ?thesis by blast
  qed
next
  case (found_slot vHash ksize offset k' s v)
  then have "next_offset vHash ksize offset + next_size vHash ksize offset \<le> length vHash"
    and "k = window vHash (next_offset vHash ksize offset) (next_size vHash ksize offset)"
    by (simp_all add: slice_Inr)
  with next_size_ge [of ksize vHash offset] show ?case by blast
qed

text \<open>
  The loop ends in the panic of the slice expression exactly when every window from
  the one in force on is taken by another value.
\<close>

lemma later_step:
  assumes "P + Z \<le> length D" and "p + z \<le> length D"
  shows "(Z < z \<or> (z = Z \<and> P \<le> p)) \<longleftrightarrow>
         (z = Z \<and> p = P) \<or>
         (next_size D Z (P + 1) < z \<or>
          (z = next_size D Z (P + 1) \<and> next_offset D Z (P + 1) \<le> p))"
  using assms by (auto simp: next_size_def next_offset_def)

lemma probe_panic_iff:
  "fst (probe s v D sz off) = Inl PanicSliceBounds \<longleftrightarrow>
     (\<forall>z p. p + z \<le> length D \<and>
            (next_size D sz off < z \<or> (z = next_size D sz off \<and> next_offset D sz off \<le> p)) \<longrightarrow>
            taken_by_other s v (window D p z))"
proof (induction s v D sz off rule: probe_induct)
  case (step s v D sz off)
  let ?Z = "next_size D sz off" and ?P = "next_offset D sz off"
  obtain r s' where run: "probe s v D sz off = (r, s')" by (cases "probe s v D sz off")
  from run show ?case
  proof (cases rule: probe_cases)
    case panic
    then have "p + z \<le> length D \<Longrightarrow> ?Z < z \<or> (z = ?Z \<and> ?P \<le> p) \<Longrightarrow> False" for z p
      by (auto simp: next_size_def next_offset_def split: if_splits)
    then have "\<forall>z p. p + z \<le> length D \<and> (?Z < z \<or> (z = ?Z \<and> ?P \<le> p)) \<longrightarrow>
            taken_by_other s v (window D p z)"
      by blast
    with panic run show ?thesis by simp
  next
    case claim
    then have "\<not> taken_by_other s v (window D ?P ?Z)"
      by (simp add: taken_by_other_def)
    with claim(1) have "\<not> (\<forall>z p. p + z \<le> length D \<and> (?Z < z \<or> (z = ?Z \<and> ?P \<le> p)) \<longrightarrow>
            taken_by_other s v (window D p z))"
      by (metis order_refl)
    with claim run show ?thesis by simp
  next
    case hit
    then have "\<not> taken_by_other s v (window D ?P ?Z)"
      by (simp add: taken_by_other_def)
    with hit(1) have "\<not> (\<forall>z p. p + z \<le> length D \<and> (?Z < z \<or> (z = ?Z \<and> ?P \<le> p)) \<longrightarrow>
            taken_by_other s v (window D p z))"
      by (metis order_refl)
    with hit run show ?thesis by simp
  next
    case (collide w)
    from collide have same: "probe s v D sz off = probe s v D ?Z (?P + 1)"
      by (simp add: probe_collide)
    from collide have taken: "taken_by_other s v (window D ?P ?Z)"
      by (simp add: taken_by_other_def)
    have "(\<forall>z p. p + z \<le> length D \<and> (?Z < z \<or> (z = ?Z \<and> ?P \<le> p)) \<longrightarrow>
              taken_by_other s v (window D p z)) \<longleftrightarrow>
          (\<forall>z p. p + z \<le> length D \<and>
              (next_size D ?Z (?P + 1) < z \<or>
               (z = next_size D ?Z (?P + 1) \<and> next_offset D ?Z (?P + 1) \<le> p)) \<longrightarrow>
              taken_by_other s v (window D p z))"
      (is "?now \<longleftrightarrow> ?then")
    proof
      assume now: ?now
      show ?then
      proof (intro allI impI)
        fix z p
        assume a: "p + z \<le> length D \<and>
              (next_size D ?Z (?P + 1) < z \<or>
               (z = next_size D ?Z (?P + 1) \<and> next_offset D ?Z (?P + 1) \<le> p))"
        with later_step [OF collide(1), of p z] have "?Z < z \<or> (z = ?Z \<and> ?P \<le> p)" by blast
        with a now show "taken_by_other s v (window D p z)" by blast
      qed
    next
      assume "then": ?then
      show ?now
      proof (intro allI impI)
        fix z p
        assume a: "p + z \<le> length D \<and> (?Z < z \<or> (z = ?Z \<and> ?P \<le> p))"
        with later_step [OF collide(1), of p z]
        consider "z = ?Z \<and> p = ?P"
          | "next_size D ?Z (?P + 1) < z \<or>
               (z = next_size D ?Z (?P + 1) \<and> next_offset D ?Z (?P + 1) \<le> p)"
          by blast
        then show "taken_by_other s v (window D p z)"
        proof cases
          case 1
          with taken show ?thesis by simp
        next
          case 2
          with a "then" show ?thesis by blast
        qed
      qed
    qed
    with step.IH [OF collide(1,2,3)] same show ?thesis by simp
  qed
qed

lemma Create_panic_iff:
  "fst (Create s v) = Inl PanicSliceBounds \<longleftrightarrow>
     length v \<le> maxLen \<and>
     (\<forall>z p. minKeySize \<le> z \<and> p + z \<le> 22 \<longrightarrow> taken_by_other s v (window (digest v) p z))"
proof (cases "length v > maxLen")
  case True
  then show ?thesis by (simp add: Create_digest)
next
  case False
  have "(\<forall>z p. p + z \<le> length (digest v) \<and>
            (next_size (digest v) minKeySize 0 < z \<or>
             (z = next_size (digest v) minKeySize 0 \<and> next_offset (digest v) minKeySize 0 \<le> p)) \<longrightarrow>
            taken_by_other s v (window (digest v) p z)) \<longleftrightarrow>
        (\<forall>z p. minKeySize \<le> z \<and> p + z \<le> 22 \<longrightarrow> taken_by_other s v (window (digest v) p z))"
  proof -
    have first: "(next_size (digest v) minKeySize 0 < z \<or>
             (z = next_size (digest v) minKeySize 0 \<and> next_offset (digest v) minKeySize 0 \<le> p))
           \<longleftrightarrow> minKeySize \<le> z" for z p
      by (auto simp: next_size_def next_offset_def length_digest minKeySize_def)
    show ?thesis by (simp only: first length_digest) blast
  qed
  with False probe_panic_iff [of s v "digest v" minKeySize 0] show ?thesis
    by (simp add: Create_digest)
qed

lemma windows_left_17: "windows_left 17 = 153"
  by (simp add: eval_nat_numeral)

lemma Create_run_bounds:
  assumes "Create_run s v ks r s'"
  shows "length ks \<le> 153"
    and "k \<in> set ks \<Longrightarrow>
           minKeySize \<le> length k \<and> length k \<le> 22 \<and> (length k = 22 \<longrightarrow> k = digest v)"
proof -
  have "length ks \<le> 153 \<and>
        (k \<in> set ks \<longrightarrow>
           minKeySize \<le> length k \<and> length k \<le> 22 \<and> (length k = 22 \<longrightarrow> k = digest v))"
    using assms
  proof (cases rule: Create_run.cases)
    case too_long
    then show ?thesis by simp
  next
    case (write_failed err)
    then show ?thesis by simp
  next
    case (probed hasher)
    from probed(2) have "hasher = bytes_of_string v"
      by (simp add: hasher_Write_def md5_New_def)
    with probed(3) have run: "probe_run s v (digest v) minKeySize 0 ks r s'"
      by (simp add: digest_def hasher_Sum_def)
    have "probes_left (digest v) minKeySize 0 = 153"
      by (simp add: probes_left_def next_size_def next_offset_def length_digest minKeySize_def
            windows_left_17)
    with probe_run_length [OF run] have len: "length ks \<le> 153" by simp
    have "minKeySize \<le> length k \<and> length k \<le> 22 \<and> (length k = 22 \<longrightarrow> k = digest v)"
      if "k \<in> set ks"
    proof -
      from probe_run_keys [OF run that] obtain z p
        where "minKeySize \<le> z" and "p + z \<le> length (digest v)" and "k = window (digest v) p z"
        by blast
      then show ?thesis by (auto simp: window_def length_digest)
    qed
    with len show ?thesis by blast
  qed
  then show "length ks \<le> 153"
    and "k \<in> set ks \<Longrightarrow>
           minKeySize \<le> length k \<and> length k \<le> 22 \<and> (length k = 22 \<longrightarrow> k = digest v)"
    by blast+
qed

lemma Create_error:
  assumes "Create s v = (Inl e, s')"
  shows "s' = s \<and> (e = ErrMaxSizeExceeded \<or> e = PanicSliceBounds)"
  using assms by (auto simp: Create_digest split: if_splits dest: probe_fail)

lemma windows_of_taken:
  assumes "minKeySize \<le> z" and "p + z \<le> length D" and "other \<noteq> v"
  shows "taken_by_other \<lparr>m = map_of (map (\<lambda>k. (k, other)) (windows_of D))\<rparr> v (window D p z)"
proof -
  from assms(2) have "p \<in> set [0..<length D + 1 - z]" by simp
  then have "window D p z \<in> set (map (\<lambda>p. window D p z) [0..<length D + 1 - z])"
    unfolding set_map by (rule imageI)
  moreover from assms(1,2) have "z \<in> set [minKeySize..<length D + 1]" by auto
  then have "map (\<lambda>p. window D p z) [0..<length D + 1 - z]
      \<in> set (map (\<lambda>z. map (\<lambda>p. window D p z) [0..<length D + 1 - z])
                 [minKeySize..<length D + 1])"
    unfolding set_map by (rule imageI)
  ultimately have "window D p z \<in> set (windows_of D)"
    unfolding windows_of_def set_concat by (rule UN_I [rotated])
  then have "map_of (map (\<lambda>k. (k, other)) (windows_of D)) (window D p z) = Some other"
    by (simp add: map_of_map_restrict)
  with assms(3) show ?thesis by (simp add: taken_by_other_def)
qed

text \<open>The run of \<open>Create\<close> for the second of the two values with a common prefix.\<close>

lemma Create_run_400704:
  "Create_run \<lparr>m = [''9GZX1n'' \<mapsto> ''40236'']\<rparr> ''400704'' [''9GZX1n'', ''GZX1n5'']
     (Inr ''GZX1n5'') \<lparr>m = [''9GZX1n'' \<mapsto> ''40236'', ''GZX1n5'' \<mapsto> ''400704'']\<rparr>"
proof -
  let ?s = "\<lparr>m = [''9GZX1n'' \<mapsto> ''40236'']\<rparr>"
  let ?D = "''9GZX1n56PeAvZAE7_L2TLA''"
  have short: "\<not> length ''400704'' > maxLen" by (simp add: maxLen_def)
  have written: "hasher_Write md5_New (bytes_of_string ''400704'') = Inr (bytes_of_string ''400704'')"
    by (simp add: hasher_Write_def md5_New_def)
  have hash: "EncodeToString (hasher_Sum (bytes_of_string ''400704'')) = ?D"
    using digest_400704 by (simp add: digest_def hasher_Sum_def)
  have second: "probe_run ?s ''400704'' ?D 6 1 [''GZX1n5''] (Inr ''GZX1n5'')
      (?s\<lparr>m := (m ?s)(''GZX1n5'' \<mapsto> ''400704'')\<rparr>)"
    by (rule probe_run.found_slot) (simp_all add: slice_def next_size_def next_offset_def)
  have "probe_run ?s ''400704'' ?D 6 0 [''9GZX1n'', ''GZX1n5''] (Inr ''GZX1n5'')
      (?s\<lparr>m := (m ?s)(''GZX1n5'' \<mapsto> ''400704'')\<rparr>)"
    by (rule probe_run.move_window [where oldv = "''40236''"])
       (use second in \<open>simp_all add: slice_def next_size_def next_offset_def\<close>)
  then have "probe_run ?s ''400704'' (EncodeToString (hasher_Sum (bytes_of_string ''400704'')))
      minKeySize 0 [''9GZX1n'', ''GZX1n5''] (Inr ''GZX1n5'')
      \<lparr>m = [''9GZX1n'' \<mapsto> ''40236'', ''GZX1n5'' \<mapsto> ''400704'']\<rparr>"
    by (simp add: hash minKeySize_def)
  with short written show ?thesis by (rule Create_run.probed)
qed

section \<open>Round trip\<close>

text \<open>
  C1. For every value of at most \<open>maxLen\<close> bytes, when \<open>Create\<close> succeeds and returns the
  key \<open>k\<close>, a \<open>Lookup\<close> of \<open>k\<close> on the service that \<open>Create\<close> leaves returns the value, with
  no error, and leaves the service as it is.
\<close>

theorem create_lookup_roundtrip:
  assumes "length v \<le> maxLen" and "Create s v = (Inr k, s')"
  shows "Lookup s' k = (Inr v, s')"
proof -
  from assms(2) have "m s' k = Some v"
    by (rule probe_stored [OF Create_probe])
  moreover from Create_key_length [OF assms(2)] have "length k \<le> maxLen"
    by (simp add: maxLen_def)
  ultimately show ?thesis by (simp add: Lookup_def)
qed

theorem create_lookup_roundtrip_witness:
  "length ''12345'' \<le> maxLen \<and>
   Create NewInMemService ''12345'' = (Inr ''gnzLDu'', \<lparr>m = [''gnzLDu'' \<mapsto> ''12345'']\<rparr>) \<and>
   Lookup \<lparr>m = [''gnzLDu'' \<mapsto> ''12345'']\<rparr> ''gnzLDu''
     = (Inr ''12345'', \<lparr>m = [''gnzLDu'' \<mapsto> ''12345'']\<rparr>)"
proof -
  have len: "length ''12345'' \<le> maxLen" by (simp add: maxLen_def)
  from create_lookup_roundtrip [OF len Create_12345] len Create_12345 show ?thesis by simp
qed

section \<open>Inputs beyond the maximal length\<close>

text \<open>
  C6. For every input string longer than \<open>maxLen\<close> (2083 bytes), \<open>Create\<close> fails with
  \<open>ErrMaxSizeExceeded\<close> and so does \<open>Lookup\<close>, and each leaves the service, and with it
  the map from keys to values, exactly as it was.
\<close>

theorem too_long_rejected:
  assumes "length x > maxLen"
  shows "Create s x = (Inl ErrMaxSizeExceeded, s) \<and> Lookup s x = (Inl ErrMaxSizeExceeded, s)"
  using assms by (simp add: Create_def Lookup_def)

theorem too_long_rejected_witness:
  "length (replicate 2084 CHR ''a'') > maxLen \<and>
   Create NewInMemService (replicate 2084 CHR ''a'') = (Inl ErrMaxSizeExceeded, NewInMemService) \<and>
   Lookup NewInMemService (replicate 2084 CHR ''a'') = (Inl ErrMaxSizeExceeded, NewInMemService)"
proof -
  have len: "length (replicate 2084 CHR ''a'') > maxLen" by (simp add: maxLen_def)
  from too_long_rejected [OF len, of NewInMemService] len show ?thesis by simp
qed

section \<open>Distinct values, distinct keys\<close>

text \<open>
  C2. For two distinct values \<open>v1\<close> and \<open>v2\<close>: when \<open>Create\<close> of \<open>v1\<close> succeeds on any
  service (so after any earlier calls) and, after any further calls, \<open>Create\<close> of \<open>v2\<close>
  succeeds, the two keys returned differ. The two values are interchangeable, so the
  order of the two calls does not matter; the witness is a pair of values whose digests
  share their first six characters.
\<close>

theorem distinct_values_distinct_keys:
  assumes "Create s v1 = (Inr k1, s1)"
    and "Create (run_calls s1 cs) v2 = (Inr k2, s2)"
    and "v1 \<noteq> v2"
  shows "k1 \<noteq> k2"
proof
  assume eq: "k1 = k2"
  from assms(1) have "m s1 k1 = Some v1"
    by (rule probe_stored [OF Create_probe])
  moreover have "m s1 \<subseteq>\<^sub>m m (run_calls s1 cs)" by (rule run_calls_mono)
  moreover from assms(2) have "m (run_calls s1 cs) \<subseteq>\<^sub>m m s2" by (rule Create_mono)
  ultimately have "m s2 k1 = Some v1"
    by (auto simp: map_le_def dom_def)
  moreover from assms(2) have "m s2 k2 = Some v2"
    by (rule probe_stored [OF Create_probe])
  ultimately show False using eq assms(3) by simp
qed

theorem distinct_values_distinct_keys_witness:
  "Create NewInMemService ''40236'' = (Inr ''9GZX1n'', \<lparr>m = [''9GZX1n'' \<mapsto> ''40236'']\<rparr>) \<and>
   Create (run_calls \<lparr>m = [''9GZX1n'' \<mapsto> ''40236'']\<rparr> []) ''400704'' =
     (Inr ''GZX1n5'', \<lparr>m = [''9GZX1n'' \<mapsto> ''40236'', ''GZX1n5'' \<mapsto> ''400704'']\<rparr>) \<and>
   ''40236'' \<noteq> ''400704'' \<and>
   take 6 (digest ''40236'') = take 6 (digest ''400704'') \<and>
   ''9GZX1n'' \<noteq> ''GZX1n5''"
proof -
  have second: "Create (run_calls \<lparr>m = [''9GZX1n'' \<mapsto> ''40236'']\<rparr> []) ''400704'' =
     (Inr ''GZX1n5'', \<lparr>m = [''9GZX1n'' \<mapsto> ''40236'', ''GZX1n5'' \<mapsto> ''400704'']\<rparr>)"
    by (simp add: Create_400704)
  have differ: "''40236'' \<noteq> ''400704''" by simp
  have prefix: "take 6 (digest ''40236'') = take 6 (digest ''400704'')"
    by (simp add: digest_40236 digest_400704)
  from distinct_values_distinct_keys [OF Create_40236 second differ] second differ prefix
  show ?thesis by (simp only: Create_40236 simp_thms)
qed

section \<open>Creating a value again\<close>

text \<open>
  C3. A later \<open>Create\<close> of the same value, after any calls of \<open>Create\<close> and \<open>Lookup\<close>
  in between, returns what the first call returned, so the same key and no error when
  the first call returned a key, and leaves the service, and so its map, unchanged: no
  entry is added.
\<close>

theorem create_again_same_key:
  assumes "Create s v = (r, s1)"
  shows "Create (run_calls s1 cs) v = (r, run_calls s1 cs)"
proof (cases "length v > maxLen")
  case True
  with assms show ?thesis by (simp add: Create_digest)
next
  case False
  with assms have "probe s v (digest v) minKeySize 0 = (r, s1)"
    by (simp add: Create_digest)
  from probe_stable [OF this run_calls_mono] False show ?thesis
    by (simp add: Create_digest)
qed

theorem create_again_same_key_witness:
  "Create NewInMemService ''40236'' = (Inr ''9GZX1n'', \<lparr>m = [''9GZX1n'' \<mapsto> ''40236'']\<rparr>) \<and>
   run_calls \<lparr>m = [''9GZX1n'' \<mapsto> ''40236'']\<rparr> [CreateCall ''400704'', LookupCall ''GZX1n5'']
     = \<lparr>m = [''9GZX1n'' \<mapsto> ''40236'', ''GZX1n5'' \<mapsto> ''400704'']\<rparr> \<and>
   Create \<lparr>m = [''9GZX1n'' \<mapsto> ''40236'', ''GZX1n5'' \<mapsto> ''400704'']\<rparr> ''40236''
     = (Inr ''9GZX1n'', \<lparr>m = [''9GZX1n'' \<mapsto> ''40236'', ''GZX1n5'' \<mapsto> ''400704'']\<rparr>)"
proof -
  have run: "run_calls \<lparr>m = [''9GZX1n'' \<mapsto> ''40236'']\<rparr> [CreateCall ''400704'', LookupCall ''GZX1n5'']
     = \<lparr>m = [''9GZX1n'' \<mapsto> ''40236'', ''GZX1n5'' \<mapsto> ''400704'']\<rparr>"
    by (simp add: Create_400704 Lookup_def)
  from create_again_same_key [OF Create_40236, of "[CreateCall ''400704'', LookupCall ''GZX1n5'']"]
  show ?thesis by (simp only: run Create_40236 simp_thms)
qed

section \<open>Looking up\<close>

text \<open>
  C7. For every key \<open>k\<close> of at most \<open>maxLen\<close> bytes: \<open>Lookup\<close> fails with \<open>ErrKeyNotFound\<close>
  exactly when the map has no entry for \<open>k\<close>; when the map holds \<open>v\<close> for \<open>k\<close>, it
  returns \<open>v\<close>; in both cases the service is left as it was. On a service that started
  empty and served any sequence of calls, a key that no \<open>Create\<close> of the sequence
  returned is not found.
\<close>

theorem lookup_not_found_iff_absent:
  assumes "length k \<le> maxLen"
  shows "(Lookup s k = (Inl ErrKeyNotFound, s) \<longleftrightarrow> m s k = None) \<and>
         (m s k = Some v \<longrightarrow> Lookup s k = (Inr v, s)) \<and>
         snd (Lookup s k) = s \<and>
         (k \<notin> created_keys NewInMemService cs \<longrightarrow>
            Lookup (run_calls NewInMemService cs) k
              = (Inl ErrKeyNotFound, run_calls NewInMemService cs))"
proof -
  have "k \<notin> created_keys NewInMemService cs \<Longrightarrow> m (run_calls NewInMemService cs) k = None"
    using run_calls_dom [of NewInMemService cs] by (auto simp: NewInMemService_def)
  with assms show ?thesis
    by (auto simp: Lookup_def split: option.splits)
qed

theorem lookup_not_found_iff_absent_witness:
  "length ''gnzLDu'' \<le> maxLen \<and> length ''nzLDuq'' \<le> maxLen \<and>
   m \<lparr>m = [''gnzLDu'' \<mapsto> ''12345'']\<rparr> ''gnzLDu'' = Some ''12345'' \<and>
   Lookup \<lparr>m = [''gnzLDu'' \<mapsto> ''12345'']\<rparr> ''gnzLDu''
     = (Inr ''12345'', \<lparr>m = [''gnzLDu'' \<mapsto> ''12345'']\<rparr>) \<and>
   ''nzLDuq'' \<notin> created_keys NewInMemService [CreateCall ''12345''] \<and>
   Lookup (run_calls NewInMemService [CreateCall ''12345'']) ''nzLDuq''
     = (Inl ErrKeyNotFound, run_calls NewInMemService [CreateCall ''12345''])"
proof -
  have len1: "length ''gnzLDu'' \<le> maxLen" and len2: "length ''nzLDuq'' \<le> maxLen"
    by (simp_all add: maxLen_def)
  have present: "m \<lparr>m = [''gnzLDu'' \<mapsto> ''12345'']\<rparr> ''gnzLDu'' = Some ''12345''"
    by simp
  have fresh: "''nzLDuq'' \<notin> created_keys NewInMemService [CreateCall ''12345'']"
    by (simp add: Create_12345)
  from lookup_not_found_iff_absent [OF len1, of "\<lparr>m = [''gnzLDu'' \<mapsto> ''12345'']\<rparr>" "''12345''" "[]"]
    lookup_not_found_iff_absent [OF len2, of NewInMemService "''12345''" "[CreateCall ''12345'']"]
    len1 len2 present fresh
  show ?thesis by blast
qed

section \<open>The digest and the test case\<close>

text \<open>
  C8. The digest of a value is its MD5 hash, 16 bytes or 128 bits, in the unpadded
  URL-safe base 64: always 22 characters, all of that alphabet, and it is the string
  whose windows \<open>Create\<close> probes. On the empty service
  \<open>Create\<close> of \<open>12345\<close> returns \<open>gnzLDu\<close>, the six characters at offset 0 of the digest
  of that value, and \<open>Lookup\<close> of \<open>gnzLDu\<close> then returns \<open>12345\<close>, as the HTTP test of
  the repository expects.
\<close>

theorem digest_and_test_case:
  "length (md5_digest (bytes_of_string v)) = 16 \<and>
   Create s v =
     (if length v > maxLen then (Inl ErrMaxSizeExceeded, s)
      else probe s v (digest v) minKeySize 0) \<and>
   length (digest v) = 22 \<and>
   set (digest v) \<subseteq> set encodeURL \<and>
   digest ''12345'' = ''gnzLDuqKcGxMNKFokfhOew'' \<and>
   window (digest ''12345'') 0 6 = ''gnzLDu'' \<and>
   Create NewInMemService ''12345'' = (Inr ''gnzLDu'', \<lparr>m = [''gnzLDu'' \<mapsto> ''12345'']\<rparr>) \<and>
   Lookup \<lparr>m = [''gnzLDu'' \<mapsto> ''12345'']\<rparr> ''gnzLDu''
     = (Inr ''12345'', \<lparr>m = [''gnzLDu'' \<mapsto> ''12345'']\<rparr>)"
proof -
  have "set (digest v) \<subseteq> set encodeURL"
    unfolding digest_def by (rule EncodeToString_alphabet)
  moreover have "window (digest ''12345'') 0 6 = ''gnzLDu''"
    by (simp add: digest_12345 window_def)
  moreover have "Lookup \<lparr>m = [''gnzLDu'' \<mapsto> ''12345'']\<rparr> ''gnzLDu''
     = (Inr ''12345'', \<lparr>m = [''gnzLDu'' \<mapsto> ''12345'']\<rparr>)"
    by (simp add: Lookup_def maxLen_def)
  ultimately show ?thesis
    using Create_digest [of s v]
    by (simp add: length_md5_digest length_digest digest_12345 Create_12345)
qed

section \<open>Keys are parts of digests\<close>

text \<open>
  C10. The invariant \<open>keys_from_digests\<close>: every key of the map is a contiguous part of
  the digest of the value it maps to, of at least \<open>minKeySize\<close> and at most 22
  characters, the length of a digest. It holds of the empty service, every \<open>Create\<close> and
  every \<open>Lookup\<close> keeps it, so it holds after any sequence of calls; and a key that a
  successful \<open>Create\<close> returns has at most 22 characters, so no \<open>Lookup\<close> rejects it as
  too long.
\<close>

theorem keys_from_digests_invariant:
  "keys_from_digests NewInMemService \<and>
   (keys_from_digests s \<longrightarrow>
      keys_from_digests (snd (Create s v)) \<and> keys_from_digests (snd (Lookup s x))) \<and>
   keys_from_digests (run_calls NewInMemService cs) \<and>
   length (digest v) = 22 \<and>
   (Create s v = (Inr k, s') \<longrightarrow>
      length k \<le> 22 \<and> fst (Lookup t k) \<noteq> Inl ErrMaxSizeExceeded)"
proof -
  have init: "keys_from_digests NewInMemService"
    by (simp add: keys_from_digests_def NewInMemService_def)
  have "fst (Lookup t k) \<noteq> Inl ErrMaxSizeExceeded" if "Create s v = (Inr k, s')"
    using Create_key_length [OF that]
    by (simp add: Lookup_def maxLen_def split: option.splits)
  with init show ?thesis
    by (auto simp: Create_keeps_keys_from_digests Lookup_unchanged length_digest
          run_calls_keeps_keys_from_digests dest: Create_key_length)
qed

theorem keys_from_digests_invariant_witness:
  "keys_from_digests \<lparr>m = [''gnzLDu'' \<mapsto> ''12345'']\<rparr> \<and>
   sublist ''gnzLDu'' (digest ''12345'') \<and>
   Create NewInMemService ''12345'' = (Inr ''gnzLDu'', \<lparr>m = [''gnzLDu'' \<mapsto> ''12345'']\<rparr>) \<and>
   length ''gnzLDu'' \<le> 22 \<and>
   fst (Lookup \<lparr>m = [''gnzLDu'' \<mapsto> ''12345'']\<rparr> ''gnzLDu'') \<noteq> Inl ErrMaxSizeExceeded"
proof -
  have run: "run_calls NewInMemService [CreateCall ''12345''] = \<lparr>m = [''gnzLDu'' \<mapsto> ''12345'']\<rparr>"
    by (simp add: Create_12345)
  have inv: "keys_from_digests \<lparr>m = [''gnzLDu'' \<mapsto> ''12345'']\<rparr>"
    using keys_from_digests_invariant [of NewInMemService "''12345''" "''''" "[CreateCall ''12345'']"]
    by (simp only: run)
  then have "sublist ''gnzLDu'' (digest ''12345'')"
    by (simp add: keys_from_digests_def)
  with inv keys_from_digests_invariant [of NewInMemService "''12345''" "''''" "[]" "''gnzLDu''"
      "\<lparr>m = [''gnzLDu'' \<mapsto> ''12345'']\<rparr>" "\<lparr>m = [''gnzLDu'' \<mapsto> ''12345'']\<rparr>"]
    Create_12345
  show ?thesis by simp
qed

section \<open>Termination\<close>

text \<open>
  C4. For every service and every value \<open>Create\<close> has a finite run, which ends as the
  function \<open>Create\<close> says. The run computes at most 153 candidate keys, each of at
  least \<open>minKeySize\<close> and at most 22 characters, the length of the digest, and a
  candidate of 22 characters is the whole digest. The run ends in the panic of the
  slice expression, which is neither \<open>ErrMaxSizeExceeded\<close> nor \<open>ErrKeyNotFound\<close>, exactly
  when the value is not too long and every window of the digest is taken by another
  value; a failing \<open>Create\<close> leaves the service as it was. From any head of the loop
  where the size, after its increment, exceeds the length of the digest, the loop ends
  in that panic at once.
\<close>

theorem create_terminates:
  "(\<exists>ks r s'. Create_run s v ks r s' \<and> Create s v = (r, s') \<and>
      length ks \<le> 153 \<and>
      (\<forall>k\<in>set ks. minKeySize \<le> length k \<and> length k \<le> 22 \<and>
                   (length k = 22 \<longrightarrow> k = digest v)) \<and>
      (r = Inl PanicSliceBounds \<longleftrightarrow>
         length v \<le> maxLen \<and>
         (\<forall>z p. minKeySize \<le> z \<and> p + z \<le> 22 \<longrightarrow>
                taken_by_other s v (window (digest v) p z))) \<and>
      (\<forall>e. r = Inl e \<longrightarrow> s' = s \<and> (e = ErrMaxSizeExceeded \<or> e = PanicSliceBounds))) \<and>
   (length (digest v) < next_size (digest v) sz off \<longrightarrow>
      probe s v (digest v) sz off = (Inl PanicSliceBounds, s)) \<and>
   PanicSliceBounds \<noteq> ErrMaxSizeExceeded \<and> PanicSliceBounds \<noteq> ErrKeyNotFound"
proof -
  obtain ks where run: "Create_run s v ks (fst (Create s v)) (snd (Create s v))"
    using Create_run_total by blast
  have res: "Create s v = (fst (Create s v), snd (Create s v))" by simp
  have errors: "\<forall>e. fst (Create s v) = Inl e \<longrightarrow>
      snd (Create s v) = s \<and> (e = ErrMaxSizeExceeded \<or> e = PanicSliceBounds)"
    using Create_error [of s v _ "snd (Create s v)"] by (metis prod.collapse)
  have keys: "\<forall>k\<in>set ks. minKeySize \<le> length k \<and> length k \<le> 22 \<and>
                   (length k = 22 \<longrightarrow> k = digest v)"
    using Create_run_bounds(2) [OF run] by blast
  have grown: "length (digest v) < next_size (digest v) sz off \<longrightarrow>
      probe s v (digest v) sz off = (Inl PanicSliceBounds, s)"
    by (simp add: probe_panic)
  from run res Create_run_bounds(1) [OF run] keys Create_panic_iff [of s v] errors
  have "\<exists>ks r s'. Create_run s v ks r s' \<and> Create s v = (r, s') \<and>
      length ks \<le> 153 \<and>
      (\<forall>k\<in>set ks. minKeySize \<le> length k \<and> length k \<le> 22 \<and>
                   (length k = 22 \<longrightarrow> k = digest v)) \<and>
      (r = Inl PanicSliceBounds \<longleftrightarrow>
         length v \<le> maxLen \<and>
         (\<forall>z p. minKeySize \<le> z \<and> p + z \<le> 22 \<longrightarrow>
                taken_by_other s v (window (digest v) p z))) \<and>
      (\<forall>e. r = Inl e \<longrightarrow> s' = s \<and> (e = ErrMaxSizeExceeded \<or> e = PanicSliceBounds))"
    by blast
  with grown show ?thesis by simp
qed

theorem create_terminates_witness:
  "(\<exists>ks. Create_run NewInMemService ''12345'' ks (Inr ''gnzLDu'')
            \<lparr>m = [''gnzLDu'' \<mapsto> ''12345'']\<rparr> \<and> length ks \<le> 153) \<and>
   length (windows_of (digest ''12345'')) = 153 \<and>
   Create \<lparr>m = map_of (map (\<lambda>k. (k, ''54321'')) (windows_of (digest ''12345'')))\<rparr> ''12345''
     = (Inl PanicSliceBounds,
        \<lparr>m = map_of (map (\<lambda>k. (k, ''54321'')) (windows_of (digest ''12345'')))\<rparr>)"
proof -
  let ?full = "\<lparr>m = map_of (map (\<lambda>k. (k, ''54321'')) (windows_of (digest ''12345'')))\<rparr>"
  have first: "\<exists>ks. Create_run NewInMemService ''12345'' ks (Inr ''gnzLDu'')
            \<lparr>m = [''gnzLDu'' \<mapsto> ''12345'']\<rparr> \<and> length ks \<le> 153"
    using create_terminates [of NewInMemService "''12345''" 6 0] by (auto simp: Create_12345)
  have count: "length (windows_of (digest ''12345'')) = 153"
    by (simp add: windows_of_def length_digest minKeySize_def length_concat comp_def
          upt_rec [of _ 23] upt_rec [of _ "numeral _"])
  have short: "length ''12345'' \<le> maxLen" by (simp add: maxLen_def)
  have taken: "\<forall>z p. minKeySize \<le> z \<and> p + z \<le> 22 \<longrightarrow>
      taken_by_other ?full ''12345'' (window (digest ''12345'') p z)"
    using windows_of_taken [of _ _ "digest ''12345''" "''54321''" "''12345''"]
    by (simp add: length_digest)
  from create_terminates [of ?full "''12345''" 6 0] short taken
  have "Create ?full ''12345'' = (Inl PanicSliceBounds, ?full)" by blast
  with first count show ?thesis by blast
qed

section \<open>Determinism\<close>

text \<open>
  C5. Two runs of \<open>Create\<close> for the same value from the same service compute the same
  candidate keys in the same order, return the same result and leave the same service;
  it is the result and the service that the function \<open>Create\<close> gives.
\<close>

theorem create_deterministic:
  assumes "Create_run s v ks r s'" and "Create_run s v ks' r' s''"
  shows "ks = ks' \<and> r = r' \<and> s' = s'' \<and> Create s v = (r, s')"
  using Create_run_deterministic [OF assms] Create_run_sound [OF assms(1)] by simp

theorem create_deterministic_witness:
  "Create_run \<lparr>m = [''9GZX1n'' \<mapsto> ''40236'']\<rparr> ''400704'' [''9GZX1n'', ''GZX1n5'']
     (Inr ''GZX1n5'') \<lparr>m = [''9GZX1n'' \<mapsto> ''40236'', ''GZX1n5'' \<mapsto> ''400704'']\<rparr> \<and>
   Create \<lparr>m = [''9GZX1n'' \<mapsto> ''40236'']\<rparr> ''400704''
     = (Inr ''GZX1n5'', \<lparr>m = [''9GZX1n'' \<mapsto> ''40236'', ''GZX1n5'' \<mapsto> ''400704'']\<rparr>)"
  using create_deterministic [OF Create_run_400704 Create_run_400704] Create_run_400704
  by simp

end
